theory Spec2Isabelle
  imports Main "HOL-Library.Multiset"
begin

section \<open>Run-time values of the messages prop\<close>

text \<open>
  The provider receives \<open>messages\<close> as a JavaScript value. Its declared type,
  \<open>AbstractIntlMessages\<close>, is erased at run time, and the walk decides what to do
  with a value by \<open>typeof\<close> alone, so the model is over plain JavaScript data:
  the primitives, arrays, and objects as the list of their own enumerable string-keyed
  properties in the order in which the properties were created. (In an object the keys
  are pairwise distinct; no result below depends on that.) Numbers are represented by
  integers: the walk observes only their type and, at the root, whether they are zero.
  Objects with accessors, symbols, prototypes with enumerable members and proxies are
  outside the model.
\<close>

datatype jsval =
    JUndefined
  | JNull
  | JBool bool
  | JNum int
  | JStr string
  | JArr "jsval list"
  | JObj "(string \<times> jsval) list"

datatype jstype = T_undefined | T_object | T_boolean | T_number | T_string

text \<open>The \<open>typeof\<close> operator: \<open>null\<close> and arrays are of type \<open>'object'\<close>.\<close>

fun typeof :: "jsval \<Rightarrow> jstype" where
  "typeof JUndefined = T_undefined"
| "typeof JNull = T_object"
| "typeof (JBool b) = T_boolean"
| "typeof (JNum n) = T_number"
| "typeof (JStr s) = T_string"
| "typeof (JArr xs) = T_object"
| "typeof (JObj kvs) = T_object"

text \<open>Truthiness of a value, as \<open>!messages\<close> tests it.\<close>

fun truthy :: "jsval \<Rightarrow> bool" where
  "truthy JUndefined = False"
| "truthy JNull = False"
| "truthy (JBool b) = b"
| "truthy (JNum n) = (n \<noteq> 0)"
| "truthy (JStr s) = (s \<noteq> [])"
| "truthy (JArr xs) = True"
| "truthy (JObj kvs) = True"

text \<open>An optional string argument: absent (\<open>undefined\<close>), \<open>null\<close>, or a string.\<close>

datatype optstr = Undefined | Null | Str string

text \<open>\<open>part != null\<close> holds for everything but \<open>undefined\<close> and \<open>null\<close>.\<close>

fun not_nullish :: "optstr \<Rightarrow> bool" where
  "not_nullish Undefined = False"
| "not_nullish Null = False"
| "not_nullish (Str s) = True"

text \<open>\<open>if (parentPath)\<close>: the empty string is falsy as well.\<close>

fun truthy_str :: "optstr \<Rightarrow> bool" where
  "truthy_str (Str s) = (s \<noteq> [])"
| "truthy_str _ = False"

text \<open>Conversion to a string inside \<open>join\<close> and inside a template literal.\<close>

fun to_string :: "optstr \<Rightarrow> string" where
  "to_string (Str s) = s"
| "to_string Undefined = []"
| "to_string Null = []"

fun template_string :: "optstr \<Rightarrow> string" where
  "template_string (Str s) = s"
| "template_string Undefined = ''undefined''"
| "template_string Null = ''null''"

text \<open>\<open>Array.prototype.join\<close> on strings.\<close>

fun join :: "string \<Rightarrow> string list \<Rightarrow> string" where
  "join sep [] = []"
| "join sep [x] = x"
| "join sep (x # y # ys) = x @ sep @ join sep (y # ys)"

text \<open>\<open>parts.filter((part) => part != null).join(sep)\<close>\<close>

definition join_present :: "string \<Rightarrow> optstr list \<Rightarrow> string" where
  "join_present sep parts = join sep (map to_string (filter not_nullish parts))"

text \<open>\<open>key.includes('.')\<close>\<close>

definition includes_dot :: "string \<Rightarrow> bool" where
  "includes_dot key = (CHR ''.'' \<in> set key)"

section \<open>Object.entries\<close>

text \<open>Decimal digits of a natural number, as an array index is printed.\<close>

definition digit_char :: "nat \<Rightarrow> char" where
  "digit_char d = ''0123456789'' ! d"

function digits_of :: "nat \<Rightarrow> string" where
  "digits_of n =
     (if n < 10 then [digit_char n] else digits_of (n div 10) @ [digit_char (n mod 10)])"
  by pat_completeness auto
termination
  by (relation "measure id") auto

declare digits_of.simps [simp del]

definition is_digit :: "char \<Rightarrow> bool" where
  "is_digit c = (c \<in> set ''0123456789'')"

definition digit_val :: "char \<Rightarrow> nat" where
  "digit_val c = of_char c - 48"

definition number_of :: "string \<Rightarrow> nat" where
  "number_of k = foldl (\<lambda>a c. 10 * a + digit_val c) 0 k"

text \<open>
  A property key is an array index when it is the canonical decimal form of an integer
  below \<open>2^32 - 1\<close>: \<open>''7''\<close> and \<open>''10''\<close> are, \<open>''07''\<close>, \<open>''1.5''\<close> and \<open>''''\<close> are not.
\<close>

definition array_index :: "string \<Rightarrow> nat option" where
  "array_index k =
     (if k \<noteq> [] \<and> list_all is_digit k
         \<and> digits_of (number_of k) = k \<and> number_of k < 4294967295
      then Some (number_of k) else None)"

definition is_index_key :: "string \<times> jsval \<Rightarrow> bool" where
  "is_index_key p = (array_index (fst p) \<noteq> None)"

text \<open>
  The order in which an object lists its own properties: the array-index keys first,
  in ascending numeric order, then the other string keys in creation order.
\<close>

definition own_properties :: "(string \<times> jsval) list \<Rightarrow> (string \<times> jsval) list" where
  "own_properties kvs =
     sort_key (\<lambda>p. the (array_index (fst p))) (filter is_index_key kvs)
     @ filter (\<lambda>p. \<not> is_index_key p) kvs"

text \<open>The entries of an array (or of a string's characters): index keys in order.\<close>

definition index_entries :: "jsval list \<Rightarrow> (string \<times> jsval) list" where
  "index_entries xs = zip (map digits_of [0..<length xs]) xs"

text \<open>
  What can end the pass early: the \<open>TypeError\<close> of \<open>Object.entries\<close>, the
  \<open>RangeError\<close> of the engine when the stack is full, and whatever the caller's
  \<open>onError\<close> throws, which is one value here.
\<close>

datatype exn = TypeError | RangeError | CallbackError

text \<open>
  \<open>Object.entries(v)\<close> converts its argument to an object first, which throws a
  \<open>TypeError\<close> for \<open>undefined\<close> and \<open>null\<close>; booleans and numbers have no own
  enumerable properties, a string has its characters.
\<close>

fun object_entries :: "jsval \<Rightarrow> exn + (string \<times> jsval) list" where
  "object_entries JUndefined = Inl TypeError"
| "object_entries JNull = Inl TypeError"
| "object_entries (JBool b) = Inr []"
| "object_entries (JNum n) = Inr []"
| "object_entries (JStr s) = Inr (index_entries (map (\<lambda>c. JStr [c]) s))"
| "object_entries (JArr xs) = Inr (index_entries xs)"
| "object_entries (JObj kvs) = Inr (own_properties kvs)"

section \<open>A measure for the walk\<close>

text \<open>
  The walk descends only into values of type \<open>'object'\<close>, and every entry of such a
  value is a proper part of it. (A string has itself as an entry when it has one
  character, so the test on the type is what makes the walk end.) \<open>wt\<close> counts the
  parts of a value; \<open>entries_cost\<close> bounds the work left in a list of entries.
\<close>

fun wt :: "jsval \<Rightarrow> nat" where
  "wt (JStr s) = length s"
| "wt (JArr xs) = (\<Sum>x\<leftarrow>xs. Suc (wt x))"
| "wt (JObj kvs) = (\<Sum>p\<leftarrow>kvs. Suc (wt (snd p)))"
| "wt _ = 0"

definition entry_cost :: "string \<times> jsval \<Rightarrow> nat" where
  "entry_cost p = (if typeof (snd p) = T_object then 2 * wt (snd p) + 2 else 1)"

definition entries_cost :: "(string \<times> jsval) list \<Rightarrow> nat" where
  "entries_cost es = sum_list (map entry_cost es)"

lemma sum_list_sort_key:
  "sum_list (map f (sort_key g xs)) = (sum_list (map f xs) :: nat)"
proof -
  have "mset (map f (sort_key g xs)) = mset (map f xs)" by simp
  then have "sum_mset (mset (map f (sort_key g xs))) = sum_mset (mset (map f xs))"
    by (rule arg_cong)
  then show ?thesis by (simp only: sum_mset_sum_list)
qed

lemma sum_list_partition:
  "sum_list (map f (filter P xs)) + sum_list (map f (filter (\<lambda>x. \<not> P x) xs))
     = (sum_list (map f xs) :: nat)"
  by (induction xs) auto

lemma entries_cost_own_properties: "entries_cost (own_properties kvs) = entries_cost kvs"
  by (simp add: entries_cost_def own_properties_def sum_list_sort_key sum_list_partition)

lemma entry_cost_le: "entry_cost p \<le> 2 * Suc (wt (snd p))"
  by (simp add: entry_cost_def)

lemma entries_cost_le: "entries_cost es \<le> 2 * (\<Sum>p\<leftarrow>es. Suc (wt (snd p)))"
proof (induction es)
  case Nil
  then show ?case by (simp add: entries_cost_def)
next
  case (Cons p es)
  then show ?case using entry_cost_le [of p] by (simp add: entries_cost_def)
qed

lemma index_entries_snd: "map snd (index_entries xs) = xs"
  by (simp add: index_entries_def)

lemma entries_cost_index: "entries_cost (index_entries xs) \<le> 2 * (\<Sum>x\<leftarrow>xs. Suc (wt x))"
proof -
  have "(\<Sum>p\<leftarrow>index_entries xs. Suc (wt (snd p)))
          = (\<Sum>x\<leftarrow>map snd (index_entries xs). Suc (wt x))"
    by (simp add: comp_def)
  then show ?thesis
    using entries_cost_le [of "index_entries xs"] by (simp add: index_entries_snd)
qed

lemma entries_cost_leaves:
  "\<forall>p\<in>set es. typeof (snd p) \<noteq> T_object \<Longrightarrow> entries_cost es = length es"
  by (induction es) (auto simp: entries_cost_def entry_cost_def)

lemma entries_cost_chars:
  "entries_cost (index_entries (map (\<lambda>c. JStr [c]) s)) \<le> 2 * length s"
proof -
  have "\<forall>p\<in>set (index_entries (map (\<lambda>c. JStr [c]) s)). typeof (snd p) \<noteq> T_object"
    by (auto simp: index_entries_def dest!: set_zip_rightD)
  then have "entries_cost (index_entries (map (\<lambda>c. JStr [c]) s))
               = length (index_entries (map (\<lambda>c. JStr [c]) s))"
    by (rule entries_cost_leaves)
  then show ?thesis by (simp add: index_entries_def)
qed

lemma object_entries_cost:
  "object_entries v = Inr es \<Longrightarrow> entries_cost es \<le> 2 * wt v"
proof (cases v)
  case (JObj kvs)
  assume "object_entries v = Inr es"
  with JObj show ?thesis
    using entries_cost_le [of kvs] by (auto simp: entries_cost_own_properties)
qed (auto simp: entries_cost_index entries_cost_chars, auto simp: entries_cost_def)

section \<open>The namespace validator\<close>

text \<open>
  \<open>let keyLabel = key; if (parentPath) keyLabel += ` (at ${parentPath})`;\<close>
\<close>

definition keyLabel :: "string \<Rightarrow> optstr \<Rightarrow> string" where
  "keyLabel key parentPath =
     (if truthy_str parentPath then key @ '' (at '' @ template_string parentPath @ '')''
      else key)"

text \<open>
  \<open>validateMessagesSegment\<close> pushes onto the array it is given; the model takes the
  array's content and returns the content afterwards. \<open>forEach_entry\<close> is the
  \<open>forEach\<close> over the entries with the arrow function as its body. An exception
  (\<open>Inl\<close>) ends the walk.
\<close>

function validateMessagesSegment :: "jsval \<Rightarrow> string list \<Rightarrow> optstr \<Rightarrow> exn + string list"
  and forEach_entry :: "(string \<times> jsval) list \<Rightarrow> string list \<Rightarrow> optstr \<Rightarrow> exn + string list"
where
  "validateMessagesSegment messagesPart invalidKeyLabels parentPath =
     (case object_entries messagesPart of
        Inl e \<Rightarrow> Inl e
      | Inr entries \<Rightarrow> forEach_entry entries invalidKeyLabels parentPath)"
| "forEach_entry [] invalidKeyLabels parentPath = Inr invalidKeyLabels"
| "forEach_entry ((key, messageOrMessages) # rest) invalidKeyLabels parentPath =
     (let pushed = (if includes_dot key then invalidKeyLabels @ [keyLabel key parentPath]
                    else invalidKeyLabels)
      in if typeof messageOrMessages = T_object
         then (case validateMessagesSegment messageOrMessages pushed
                      (Str (join_present ''.'' [parentPath, Str key])) of
                 Inl e \<Rightarrow> Inl e
               | Inr walked \<Rightarrow> forEach_entry rest walked parentPath)
         else forEach_entry rest pushed parentPath)"
  by pat_completeness auto
termination
proof (relation "measure (\<lambda>x. case x of
                            Inl (v, _, _) \<Rightarrow> 2 * wt v + 1
                          | Inr (es, _, _) \<Rightarrow> entries_cost es)")
qed (auto simp: entries_cost_def entry_cost_def dest!: object_entries_cost)

text \<open>
  Modelled from the spec: the class \<open>IntlError\<close> and the enumeration
  \<open>IntlErrorCode\<close> are declared in \<open>./IntlError\<close>, which is not among the sources.
  An error is represented by the two arguments its constructor is called with, the kind
  and the message; of the kinds only "invalid key" is named, the others are
  \<open>OTHER_CODE\<close>.
\<close>

datatype IntlErrorCode = INVALID_KEY | OTHER_CODE

record IntlError =
  code :: IntlErrorCode
  originalMessage :: string

text \<open>
  What the effect closes over: the \<open>messages\<close> prop, and \<open>onError\<close>, represented by
  the errors it has been called with so far, in order. In \<open>validateMessages\<close> the
  callback returns normally, as the default one does; \<open>validateMessages_with\<close>
  below is the pass with a callback that may throw.
\<close>

record provider =
  messages :: jsval
  onError_calls :: "IntlError list"

definition invalid_key_text :: string where
  "invalid_key_text = ''Namespace keys can not contain the character \".\" as this is used to express nesting. Please remove it or replace it with another character.\<newline>\<newline>Invalid ''"

definition invalid_key_error :: "string list \<Rightarrow> IntlError" where
  "invalid_key_error invalidKeyLabels =
     \<lparr>code = INVALID_KEY,
      originalMessage =
        invalid_key_text
        @ (if length invalidKeyLabels = 1 then ''key'' else ''keys'')
        @ '': '' @ join '', '' invalidKeyLabels\<rparr>"

definition onError :: "IntlError \<Rightarrow> provider \<Rightarrow> provider" where
  "onError error p = p\<lparr>onError_calls := onError_calls p @ [error]\<rparr>"

text \<open>
  \<open>validateMessages\<close> returns the provider afterwards together with the content of
  \<open>invalidKeyLabels\<close> at the end of the pass (empty when the pass returns before the
  array is made). The effect that calls it runs in development builds only, when
  \<open>messages\<close> or \<open>onError\<close> has changed; the model is of one run of the pass.
\<close>

definition validateMessages :: "provider \<Rightarrow> exn + (string list \<times> provider)" where
  "validateMessages p =
     (if \<not> truthy (messages p) then Inr ([], p)
      else case validateMessagesSegment (messages p) [] Undefined of
             Inl e \<Rightarrow> Inl e
           | Inr invalidKeyLabels \<Rightarrow>
               if length invalidKeyLabels > 0
               then Inr (invalidKeyLabels, onError (invalid_key_error invalidKeyLabels) p)
               else Inr (invalidKeyLabels, p))"

section \<open>The pass on a bounded stack, with the caller's callback\<close>

text \<open>
  \<open>validateMessagesSegment\<close> calls itself from inside the \<open>forEach\<close> callback, once
  for every level of nesting, and the engine's stack holds only so many calls.
  \<open>room\<close> is the number of calls of \<open>validateMessagesSegment\<close>, one inside the
  other, the stack still has room for; a call beyond that throws a \<open>RangeError\<close>.
  Apart from that the walk is the one above.
\<close>

function validateMessagesSegment_within ::
    "nat \<Rightarrow> jsval \<Rightarrow> string list \<Rightarrow> optstr \<Rightarrow> exn + string list"
  and forEach_entry_within ::
    "nat \<Rightarrow> (string \<times> jsval) list \<Rightarrow> string list \<Rightarrow> optstr \<Rightarrow> exn + string list"
where
  "validateMessagesSegment_within 0 messagesPart invalidKeyLabels parentPath = Inl RangeError"
| "validateMessagesSegment_within (Suc room) messagesPart invalidKeyLabels parentPath =
     (case object_entries messagesPart of
        Inl e \<Rightarrow> Inl e
      | Inr entries \<Rightarrow> forEach_entry_within room entries invalidKeyLabels parentPath)"
| "forEach_entry_within room [] invalidKeyLabels parentPath = Inr invalidKeyLabels"
| "forEach_entry_within room ((key, messageOrMessages) # rest) invalidKeyLabels parentPath =
     (let pushed = (if includes_dot key then invalidKeyLabels @ [keyLabel key parentPath]
                    else invalidKeyLabels)
      in if typeof messageOrMessages = T_object
         then (case validateMessagesSegment_within room messageOrMessages pushed
                      (Str (join_present ''.'' [parentPath, Str key])) of
                 Inl e \<Rightarrow> Inl e
               | Inr walked \<Rightarrow> forEach_entry_within room rest walked parentPath)
         else forEach_entry_within room rest pushed parentPath)"
  by pat_completeness auto
termination
  by (relation "measures [\<lambda>x. case x of Inl (r, _, _, _) \<Rightarrow> 2 * r | Inr (r, _, _, _) \<Rightarrow> 2 * r + 1,
                          \<lambda>x. case x of Inl _ \<Rightarrow> 0 | Inr (_, es, _, _) \<Rightarrow> length es]") auto

declare validateMessagesSegment_within.simps [simp del]

text \<open>
  The pass with that walk and with the caller's \<open>onError\<close>: \<open>handler\<close> tells,
  for the error it is called with, whether the callback returns (\<open>None\<close>) or
  throws (\<open>Some\<close>). The call itself is at line 104, outside any \<open>try\<close>.
\<close>

definition validateMessages_with ::
    "(IntlError \<Rightarrow> exn option) \<Rightarrow> nat \<Rightarrow> provider \<Rightarrow> exn + (string list \<times> provider)" where
  "validateMessages_with handler room p =
     (if \<not> truthy (messages p) then Inr ([], p)
      else case validateMessagesSegment_within room (messages p) [] Undefined of
             Inl e \<Rightarrow> Inl e
           | Inr invalidKeyLabels \<Rightarrow>
               if length invalidKeyLabels > 0
               then (case handler (invalid_key_error invalidKeyLabels) of
                       Some e \<Rightarrow> Inl e
                     | None \<Rightarrow> Inr (invalidKeyLabels,
                                    onError (invalid_key_error invalidKeyLabels) p))
               else Inr (invalidKeyLabels, p))"

section \<open>The default message fallback\<close>

text \<open>\<open>[namespace, key].filter((part) => part != null).join('.')\<close>\<close>

definition defaultGetMessageFallback :: "optstr \<Rightarrow> string \<Rightarrow> string" where
  "defaultGetMessageFallback namespace key = join_present ''.'' [namespace, Str key]"

section \<open>Messages dictionaries\<close>

text \<open>
  Modelled from the spec: the type \<open>AbstractIntlMessages\<close> is declared in
  \<open>./AbstractIntlMessages\<close>, which is not among the sources. A messages dictionary maps
  string keys to a leaf value, a string, or to another messages dictionary.
\<close>

fun is_message_value :: "jsval \<Rightarrow> bool" where
  "is_message_value (JStr s) = True"
| "is_message_value (JObj kvs) = (\<forall>p\<in>set kvs. is_message_value (snd p))"
| "is_message_value _ = False"

definition is_messages :: "jsval \<Rightarrow> bool" where
  "is_messages m = (typeof m = T_object \<and> is_message_value m)"

text \<open>
  The keys of a dictionary, each with the chain of its ancestor keys, outermost first:
  level by level in creation order, a key before the keys below it.
\<close>

fun key_occurrences :: "string list \<Rightarrow> jsval \<Rightarrow> (string list \<times> string) list" where
  "key_occurrences ancestors (JObj kvs) =
     concat (map (\<lambda>p. (ancestors, fst p) # key_occurrences (ancestors @ [fst p]) (snd p)) kvs)"
| "key_occurrences ancestors v = []"

definition offending :: "string list \<times> string \<Rightarrow> bool" where
  "offending occ = includes_dot (snd occ)"

text \<open>The label with the suffix for every key that has an ancestor.\<close>

definition label_with_parent :: "string list \<times> string \<Rightarrow> string" where
  "label_with_parent occ =
     (if fst occ = [] then snd occ
      else snd occ @ '' (at '' @ join ''.'' (fst occ) @ '')'')"

text \<open>The label with the suffix when the dot-joined ancestor keys are a non-empty string.\<close>

definition label_of :: "string list \<times> string \<Rightarrow> string" where
  "label_of occ =
     (if join ''.'' (fst occ) = [] then snd occ
      else snd occ @ '' (at '' @ join ''.'' (fst occ) @ '')'')"

lemma set_own_properties: "set (own_properties kvs) = set kvs"
  by (auto simp: own_properties_def)

lemma wt_member: "p \<in> set kvs \<Longrightarrow> wt (snd p) < wt (JObj kvs)"
proof -
  assume "p \<in> set kvs"
  then have "Suc (wt (snd p)) \<in> set (map (\<lambda>p. Suc (wt (snd p))) kvs)" by auto
  then have "Suc (wt (snd p)) \<le> sum_list (map (\<lambda>p. Suc (wt (snd p))) kvs)"
    by (simp add: member_le_sum_list)
  then show ?thesis by simp
qed

text \<open>
  The keys of a dictionary in the order in which \<open>Object.entries\<close> lists them at each
  level: a key before the keys below it, and those before the next key of its level.
\<close>

function (sequential) visited_keys :: "string list \<Rightarrow> jsval \<Rightarrow> (string list \<times> string) list" where
  "visited_keys ancestors (JObj kvs) =
     concat (map (\<lambda>p. (ancestors, fst p) # visited_keys (ancestors @ [fst p]) (snd p))
                 (own_properties kvs))"
| "visited_keys ancestors v = []"
  by pat_completeness auto
termination
  by (relation "measure (\<lambda>(a, v). wt v)") (auto simp: set_own_properties dest: wt_member)

text \<open>The keys met for one entry: its own key, then the keys below it.\<close>

definition below :: "string list \<Rightarrow> string \<times> jsval \<Rightarrow> (string list \<times> string) list" where
  "below ancestors p = (ancestors, fst p) # visited_keys (ancestors @ [fst p]) (snd p)"

text \<open>The labels for a list of keys: one for each key with a dot, in the list's order.\<close>

definition labels :: "(string list \<times> string) list \<Rightarrow> string list" where
  "labels occs = map label_of (filter offending occs)"

text \<open>The \<open>parentPath\<close> argument for a chain of ancestor keys.\<close>

definition path_of :: "string list \<Rightarrow> optstr" where
  "path_of ancestors = (if ancestors = [] then Undefined else Str (join ''.'' ancestors))"

text \<open>A dictionary none of whose keys, at any level, is an array index.\<close>

fun no_index_keys :: "jsval \<Rightarrow> bool" where
  "no_index_keys (JObj kvs) =
     (\<forall>p\<in>set kvs. array_index (fst p) = None \<and> no_index_keys (snd p))"
| "no_index_keys v = True"

text \<open>
  Two dictionaries with the same keys, level by level and in the same order, whose
  leaf strings may differ.
\<close>

fun same_keys :: "jsval \<Rightarrow> jsval \<Rightarrow> bool" where
  "same_keys (JStr s) (JStr t) = True"
| "same_keys (JObj kvs) (JObj kvs') =
     list_all2 (\<lambda>p q. fst p = fst q \<and> same_keys (snd p) (snd q)) kvs kvs'"
| "same_keys v w = False"

text \<open>A dictionary with the content of every leaf string removed.\<close>

fun erase :: "jsval \<Rightarrow> jsval" where
  "erase (JStr s) = JStr []"
| "erase (JObj kvs) = JObj (map (\<lambda>p. (fst p, erase (snd p))) kvs)"
| "erase v = v"

text \<open>A value with no \<open>null\<close> in it, at any depth.\<close>

fun null_free :: "jsval \<Rightarrow> bool" where
  "null_free JNull = False"
| "null_free (JArr xs) = (\<forall>x\<in>set xs. null_free x)"
| "null_free (JObj kvs) = (\<forall>p\<in>set kvs. null_free (snd p))"
| "null_free v = True"

text \<open>
  How deep dictionaries and arrays are nested inside a value: the number of calls of
  \<open>validateMessagesSegment\<close>, one inside the other, that the walk of the value makes
  below the call for the value itself. \<open>calls_below\<close> counts the same for an entry's
  value, with the call for that value.
\<close>

fun nesting :: "jsval \<Rightarrow> nat" where
  "nesting (JArr xs) =
     fold max (map (\<lambda>x. if typeof x = T_object then Suc (nesting x) else 0) xs) 0"
| "nesting (JObj kvs) =
     fold max (map (\<lambda>p. if typeof (snd p) = T_object then Suc (nesting (snd p)) else 0) kvs) 0"
| "nesting v = 0"

definition calls_below :: "jsval \<Rightarrow> nat" where
  "calls_below v = (if typeof v = T_object then Suc (nesting v) else 0)"

text \<open>The dictionary \<open>{"k": {"k": ... {}}}\<close> with \<open>n\<close> keys.\<close>

fun chain :: "nat \<Rightarrow> jsval" where
  "chain 0 = JObj []"
| "chain (Suc n) = JObj [(''k'', chain n)]"

section \<open>Sample dictionaries\<close>

text \<open>\<open>{"a.b": "x", "group": {"c.d": "1.5", "e": "y"}}\<close>\<close>

definition nested_example :: jsval where
  "nested_example =
     JObj [(''a.b'', JStr ''x''), (''group'', JObj [(''c.d'', JStr ''1.5''), (''e'', JStr ''y'')])]"

text \<open>The same keys with other leaf strings.\<close>

definition other_leaves_example :: jsval where
  "other_leaves_example =
     JObj [(''a.b'', JStr ''p.q''), (''group'', JObj [(''c.d'', JStr ''''), (''e'', JStr ''...'')])]"

text \<open>\<open>{"group": {"a.b": "x"}}\<close>\<close>

definition single_example :: jsval where
  "single_example = JObj [(''group'', JObj [(''a.b'', JStr ''x'')])]"

text \<open>\<open>{"a": "x.y"}\<close>: a dot in a leaf only.\<close>

definition clean_example :: jsval where
  "clean_example = JObj [(''a'', JStr ''x.y'')]"

text \<open>\<open>{"": {"a.b": "x"}}\<close>: a dictionary under the empty key.\<close>

definition empty_key_example :: jsval where
  "empty_key_example = JObj [('''', JObj [(''a.b'', JStr ''x'')])]"

text \<open>\<open>{"a.b": "x", "1": {"c.d": "y"}}\<close>, the properties created in this order.\<close>

definition index_key_example :: jsval where
  "index_key_example = JObj [(''a.b'', JStr ''x''), (''1'', JObj [(''c.d'', JStr ''y'')])]"



definition null_example :: jsval where
  "null_example = JObj [(''a'', JNull)]"

text \<open>\<open>{"n": 3, "list": [true, {"a.b": "x"}]}\<close>\<close>

definition mixed_example :: jsval where
  "mixed_example =
     JObj [(''n'', JNum 3), (''list'', JArr [JBool True, JObj [(''a.b'', JStr ''x'')]])]"

definition sample_provider :: provider where
  "sample_provider = \<lparr>messages = nested_example, onError_calls = []\<rparr>"

section \<open>Evaluating the walk on the samples\<close>

declare validateMessagesSegment.simps [simp del]

lemmas walk_eval = validateMessagesSegment.simps own_properties_def is_index_key_def
  includes_dot_def keyLabel_def join_present_def index_entries_def

lemma array_index_examples:
  "array_index ''group'' = None" "array_index ''a.b'' = None" "array_index ''c.d'' = None"
  "array_index ''e'' = None" "array_index ''a'' = None" "array_index [] = None"
  "array_index ''list'' = None" "array_index ''n.m'' = None" "array_index ''k'' = None"
  "array_index ''0'' = Some 0" "array_index ''1'' = Some 1"
  by (simp_all add: array_index_def number_of_def digit_val_def digit_char_def is_digit_def
        digits_of.simps)

lemma walk_nested_example:
  "validateMessagesSegment nested_example [] Undefined = Inr [''a.b'', ''c.d (at group)'']"
  by (simp add: nested_example_def walk_eval array_index_examples)

lemma walk_other_leaves_example:
  "validateMessagesSegment other_leaves_example [] Undefined = Inr [''a.b'', ''c.d (at group)'']"
  by (simp add: other_leaves_example_def walk_eval array_index_examples)

lemma walk_single_example:
  "validateMessagesSegment single_example [] Undefined = Inr [''a.b (at group)'']"
  by (simp add: single_example_def walk_eval array_index_examples)

lemma walk_clean_example: "validateMessagesSegment clean_example [] Undefined = Inr []"
  by (simp add: clean_example_def walk_eval array_index_examples)

lemma walk_empty_key_example:
  "validateMessagesSegment empty_key_example [] Undefined = Inr [''a.b'']"
  by (simp add: empty_key_example_def walk_eval array_index_examples)

lemma walk_index_key_example:
  "validateMessagesSegment index_key_example [] Undefined = Inr [''c.d (at 1)'', ''a.b'']"
  by (simp add: index_key_example_def walk_eval array_index_examples)



lemma walk_null_example: "validateMessagesSegment null_example [] Undefined = Inl TypeError"
  by (simp add: null_example_def walk_eval array_index_examples)

lemma array_index_n: "array_index ''n'' = None"
  by (simp add: array_index_def is_digit_def)

lemma array_index_k: "array_index ''k'' = None"
  by (simp add: array_index_def is_digit_def)

lemma truthy_null_example: "truthy null_example"
  by (simp add: null_example_def)

lemma truthy_single_example: "truthy single_example"
  by (simp add: single_example_def)

lemma truthy_mixed_example: "truthy mixed_example"
  by (simp add: mixed_example_def)

lemma null_free_mixed_example: "null_free mixed_example"
  by (simp add: mixed_example_def)

lemma nesting_mixed_example: "nesting mixed_example = 2"
  by (simp add: mixed_example_def)

lemma walk_mixed_example:
  "validateMessagesSegment mixed_example [] Undefined = Inr [''a.b (at list.1)'']"
  by (simp add: mixed_example_def walk_eval array_index_examples array_index_n
        digits_of.simps digit_char_def)

lemma is_messages_nested_example: "is_messages nested_example"
  by (simp add: is_messages_def nested_example_def)

lemma is_messages_single_example: "is_messages single_example"
  by (simp add: is_messages_def single_example_def)

lemma is_messages_clean_example: "is_messages clean_example"
  by (simp add: is_messages_def clean_example_def)

lemma is_messages_empty_key_example: "is_messages empty_key_example"
  by (simp add: is_messages_def empty_key_example_def)

lemma is_messages_index_key_example: "is_messages index_key_example"
  by (simp add: is_messages_def index_key_example_def)

lemma key_occurrences_nested_example:
  "key_occurrences [] nested_example
     = [([], ''a.b''), ([], ''group''), ([''group''], ''c.d''), ([''group''], ''e'')]"
  by (simp add: nested_example_def)

lemma labels_nested_example:
  "map label_of (filter offending
      [([], ''a.b''), ([], ''group''), ([''group''], ''c.d''), ([''group''], ''e'')])
     = [''a.b'', ''c.d (at group)'']"
  by (simp add: offending_def includes_dot_def label_of_def)

section \<open>What the walk collects\<close>

text \<open>
  \<open>parentPath\<close> is absent at the root and afterwards the dot-joined chain of the
  ancestor keys; the label of a key depends on that chain only.
\<close>

lemma join_snoc:
  "join sep (xs @ [x]) = (if xs = [] then x else join sep xs @ sep @ x)"
  by (induction sep xs rule: join.induct) auto

lemma path_of_snoc:
  "Str (join_present ''.'' [path_of ancestors, Str k]) = path_of (ancestors @ [k])"
  by (simp add: path_of_def join_present_def join_snoc)

lemma keyLabel_path_of: "keyLabel k (path_of ancestors) = label_of (ancestors, k)"
  by (simp add: keyLabel_def path_of_def label_of_def)

text \<open>
  On a messages dictionary the walk does not throw, and it appends to the array the
  labels of the keys with a dot, in the order in which the keys are met.
\<close>

lemma walk_messages:
  "\<forall>ancestors. parentPath = path_of ancestors \<longrightarrow> is_message_value messagesPart
       \<longrightarrow> typeof messagesPart = T_object
       \<longrightarrow> validateMessagesSegment messagesPart invalidKeyLabels parentPath
            = Inr (invalidKeyLabels @ labels (visited_keys ancestors messagesPart))"
  "\<forall>ancestors. parentPath = path_of ancestors \<longrightarrow> (\<forall>p\<in>set es. is_message_value (snd p))
       \<longrightarrow> forEach_entry es invalidKeyLabels parentPath
            = Inr (invalidKeyLabels @ labels (concat (map (below ancestors) es)))"
proof (induction messagesPart invalidKeyLabels parentPath and es invalidKeyLabels parentPath
       rule: validateMessagesSegment_forEach_entry.induct)
  case (1 messagesPart invalidKeyLabels parentPath)
  show ?case
  proof (intro allI impI)
    fix ancestors
    assume pp: "parentPath = path_of ancestors" and mv: "is_message_value messagesPart"
      and ty: "typeof messagesPart = T_object"
    from mv ty obtain kvs where v: "messagesPart = JObj kvs" by (cases messagesPart) auto
    have es: "object_entries messagesPart = Inr (own_properties kvs)" by (simp add: v)
    have "\<forall>p\<in>set (own_properties kvs). is_message_value (snd p)"
      using mv by (simp add: v set_own_properties)
    with "1.IH" [OF es] pp
    have "forEach_entry (own_properties kvs) invalidKeyLabels parentPath
            = Inr (invalidKeyLabels @ labels (concat (map (below ancestors) (own_properties kvs))))"
      by blast
    then show "validateMessagesSegment messagesPart invalidKeyLabels parentPath
            = Inr (invalidKeyLabels @ labels (visited_keys ancestors messagesPart))"
      by (simp add: v below_def [abs_def] validateMessagesSegment.simps)
  qed
next
  case (2 invalidKeyLabels parentPath)
  show ?case by (simp add: labels_def)
next
  case (3 key messageOrMessages rest invalidKeyLabels parentPath)
  show ?case
  proof (intro allI impI)
    fix ancestors
    assume pp: "parentPath = path_of ancestors"
      and mv: "\<forall>p\<in>set ((key, messageOrMessages) # rest). is_message_value (snd p)"
    define pushed where "pushed = (if includes_dot key then invalidKeyLabels @ [keyLabel key parentPath]
                    else invalidKeyLabels)"
    have pushed: "pushed = invalidKeyLabels @ labels [(ancestors, key)]"
      by (simp add: pushed_def labels_def offending_def pp keyLabel_path_of)
    have next_path: "Str (join_present ''.'' [parentPath, Str key]) = path_of (ancestors @ [key])"
      by (simp add: pp path_of_snoc)
    show "forEach_entry ((key, messageOrMessages) # rest) invalidKeyLabels parentPath
            = Inr (invalidKeyLabels @ labels (concat (map (below ancestors) ((key, messageOrMessages) # rest))))"
    proof (cases "typeof messageOrMessages = T_object")
      case True
      have sub: "validateMessagesSegment messageOrMessages pushed (Str (join_present ''.'' [parentPath, Str key]))
              = Inr (pushed @ labels (visited_keys (ancestors @ [key]) messageOrMessages))"
        using "3.IH"(1) [OF pushed_def True] next_path mv True by simp
      have "forEach_entry rest (pushed @ labels (visited_keys (ancestors @ [key]) messageOrMessages)) parentPath
              = Inr ((pushed @ labels (visited_keys (ancestors @ [key]) messageOrMessages))
                     @ labels (concat (map (below ancestors) rest)))"
        using "3.IH"(2) [OF pushed_def True sub] pp mv by simp
      with sub True show ?thesis
        by (simp add: pushed labels_def below_def pushed_def [symmetric] Let_def)
    next
      case False
      with mv obtain s where leaf: "messageOrMessages = JStr s"
        by (cases messageOrMessages) auto
      have "forEach_entry rest pushed parentPath
              = Inr (pushed @ labels (concat (map (below ancestors) rest)))"
        using "3.IH"(3) [OF pushed_def False] pp mv by simp
      with False show ?thesis
        by (simp add: pushed labels_def below_def leaf pushed_def [symmetric] Let_def)
    qed
  qed
qed

lemma walk_root:
  assumes "is_messages m"
  shows "validateMessagesSegment m [] Undefined = Inr (labels (visited_keys [] m))"
proof -
  have "Undefined = path_of []" by (simp add: path_of_def)
  with walk_messages(1) [of Undefined m "[]"] assms show ?thesis
    by (simp add: is_messages_def)
qed

lemma mset_own_properties: "mset (own_properties kvs) = mset kvs"
  by (simp add: own_properties_def)

lemma mset_concat_map:
  "mset (concat (map f xs)) = (\<Sum>x\<in>#mset xs. mset (f x))"
  by (induction xs) auto

lemma mset_visited_keys:
  "mset (visited_keys ancestors v) = mset (key_occurrences ancestors v)"
proof (induction ancestors v rule: visited_keys.induct)
  case (1 ancestors kvs)
  have "mset (visited_keys ancestors (JObj kvs))
          = (\<Sum>p\<in>#mset kvs. mset ((ancestors, fst p) # visited_keys (ancestors @ [fst p]) (snd p)))"
    by (simp add: mset_concat_map mset_own_properties)
  also have "\<dots> = (\<Sum>p\<in>#mset kvs. mset ((ancestors, fst p) # key_occurrences (ancestors @ [fst p]) (snd p)))"
    using "1.IH" by (intro arg_cong [where f = sum_mset] image_mset_cong) (simp add: set_own_properties)
  also have "\<dots> = mset (key_occurrences ancestors (JObj kvs))"
    by (simp add: mset_concat_map)
  finally show ?case .
qed simp_all

lemma validateMessages_dictionary:
  assumes "is_messages (messages p)"
  shows "validateMessages p =
           Inr (labels (visited_keys [] (messages p)),
                if labels (visited_keys [] (messages p)) = [] then p
                else onError (invalid_key_error (labels (visited_keys [] (messages p)))) p)"
proof -
  from assms have "truthy (messages p)"
    by (cases "messages p") (auto simp: is_messages_def)
  then show ?thesis
    by (simp add: validateMessages_def walk_root [OF assms])
qed

section \<open>The order of the keys at one level\<close>

lemma own_properties_no_index:
  assumes "\<forall>p\<in>set kvs. array_index (fst p) = None"
  shows "own_properties kvs = kvs"
proof -
  from assms have "filter is_index_key kvs = []" and "filter (\<lambda>p. \<not> is_index_key p) kvs = kvs"
    by (auto simp: is_index_key_def filter_empty_conv filter_id_conv)
  then show ?thesis by (simp add: own_properties_def)
qed

lemma visited_keys_no_index:
  "no_index_keys v \<Longrightarrow> visited_keys ancestors v = key_occurrences ancestors v"
proof (induction ancestors v rule: visited_keys.induct)
  case (1 ancestors kvs)
  then have own: "own_properties kvs = kvs" by (simp add: own_properties_no_index)
  have "map (\<lambda>p. (ancestors, fst p) # visited_keys (ancestors @ [fst p]) (snd p)) kvs
          = map (\<lambda>p. (ancestors, fst p) # key_occurrences (ancestors @ [fst p]) (snd p)) kvs"
    using 1 by (simp add: own)
  then show ?case by (simp only: visited_keys.simps key_occurrences.simps own)
qed simp_all


section \<open>Independence of the leaf strings\<close>

lemma insort_key_map_value:
  assumes "\<And>x. g (h x) = g x"
  shows "insort_key g (h x) (map h xs) = map h (insort_key g x xs)"
  by (induction xs) (simp_all add: assms)

lemma sort_key_map_value:
  assumes "\<And>x. g (h x) = g x"
  shows "sort_key g (map h xs) = map h (sort_key g xs)"
proof (induction xs)
  case Nil
  show ?case by simp
next
  case (Cons x xs)
  have "insort_key g (h x) (map h (sort_key g xs)) = map h (insort_key g x (sort_key g xs))"
    using assms by (rule insort_key_map_value)
  with Cons show ?case by simp
qed

lemma own_properties_map_value:
  assumes "\<And>p. fst (h p) = fst p"
  shows "own_properties (map h kvs) = map h (own_properties kvs)"
proof -
  have idx: "\<And>p. is_index_key (h p) = is_index_key p"
    by (simp add: is_index_key_def assms)
  have "sort_key (\<lambda>p. the (array_index (fst p))) (map h (filter is_index_key kvs))
          = map h (sort_key (\<lambda>p. the (array_index (fst p))) (filter is_index_key kvs))"
    by (rule sort_key_map_value) (simp add: assms)
  then show ?thesis
    by (simp add: own_properties_def filter_map comp_def idx)
qed

lemma visited_keys_erase: "visited_keys ancestors (erase v) = visited_keys ancestors v"
proof (induction ancestors v rule: visited_keys.induct)
  case (1 ancestors kvs)
  let ?h = "\<lambda>p. (fst p, erase (snd p))"
  let ?f = "\<lambda>p. (ancestors, fst p) # visited_keys (ancestors @ [fst p]) (snd p)"
  have own: "own_properties (map ?h kvs) = map ?h (own_properties kvs)"
    by (rule own_properties_map_value) simp
  have below: "map (?f \<circ> ?h) (own_properties kvs) = map ?f (own_properties kvs)"
    using "1.IH" by simp
  have "visited_keys ancestors (erase (JObj kvs)) = concat (map ?f (own_properties (map ?h kvs)))"
    by simp
  also have "\<dots> = concat (map (?f \<circ> ?h) (own_properties kvs))"
    by (simp only: own map_map)
  also have "\<dots> = concat (map ?f (own_properties kvs))"
    by (simp only: below)
  finally show ?case by simp
qed simp_all

lemma same_keys_erase: "same_keys a b \<Longrightarrow> erase a = erase b"
proof (induction a b rule: same_keys.induct)
  case (2 kvs kvs')
  from "2.prems" have rel: "list_all2 (\<lambda>p q. fst p = fst q \<and> same_keys (snd p) (snd q)) kvs kvs'"
    by simp
  have "list_all2 (\<lambda>p q. (fst p, erase (snd p)) = (fst q, erase (snd q))) kvs kvs'"
    using rel "2.IH" by (auto simp: list_all2_conv_all_nth)
  then have "map (\<lambda>p. (fst p, erase (snd p))) kvs = map (\<lambda>p. (fst p, erase (snd p))) kvs'"
    by (induction rule: list_all2_induct) simp_all
  then show ?case by simp
qed simp_all

lemma same_keys_message_value: "same_keys a b \<Longrightarrow> is_message_value a \<and> is_message_value b"
proof (induction a b rule: same_keys.induct)
  case (2 kvs kvs')
  from "2.prems" have rel: "list_all2 (\<lambda>p q. fst p = fst q \<and> same_keys (snd p) (snd q)) kvs kvs'"
    by simp
  have len: "length kvs = length kvs'" using rel by (rule list_all2_lengthD)
  have each: "is_message_value (snd (kvs ! i)) \<and> is_message_value (snd (kvs' ! i))"
    if "i < length kvs" for i
  proof -
    from rel that have "same_keys (snd (kvs ! i)) (snd (kvs' ! i))"
      by (simp add: list_all2_conv_all_nth)
    moreover have "kvs ! i \<in> set kvs" using that by simp
    moreover have "kvs' ! i \<in> set kvs'" using that len by simp
    ultimately show ?thesis using "2.IH" by blast
  qed
  have "\<forall>p\<in>set kvs. is_message_value (snd p)"
    using each by (metis in_set_conv_nth)
  moreover have "\<forall>p\<in>set kvs'. is_message_value (snd p)"
    using each len by (metis in_set_conv_nth)
  ultimately show ?case by simp
qed simp_all

lemma same_keys_visited: "same_keys a b \<Longrightarrow> visited_keys ancestors a = visited_keys ancestors b"
  using visited_keys_erase [of ancestors a] visited_keys_erase [of ancestors b]
  by (simp add: same_keys_erase)

section \<open>Arrays\<close>











section \<open>When the pass throws\<close>

text \<open>
  With room on the stack for the nesting of the value, the walk on a bounded stack is
  the walk above.
\<close>

lemma fold_max_ge: "(a::nat) \<le> fold max xs a \<and> (\<forall>x\<in>set xs. x \<le> fold max xs a)"
proof (induction xs arbitrary: a)
  case Nil
  show ?case by simp
next
  case (Cons y ys)
  from Cons [of "max y a"] show ?case by auto
qed

lemma string_entries:
  "p \<in> set (index_entries (map (\<lambda>c. JStr [c]) s)) \<Longrightarrow> \<exists>c. snd p = JStr [c]"
  by (cases p) (auto simp: index_entries_def dest!: set_zip_rightD)

lemma entries_calls_below:
  assumes "object_entries v = Inr es" and "p \<in> set es"
  shows "calls_below (snd p) \<le> nesting v"
proof (cases v)
  case (JObj kvs)
  with assms have "p \<in> set kvs" using set_own_properties [of kvs] by auto
  then have "calls_below (snd p) \<in> set (map (\<lambda>p. calls_below (snd p)) kvs)" by auto
  then have "calls_below (snd p) \<le> fold max (map (\<lambda>p. calls_below (snd p)) kvs) 0"
    using fold_max_ge by blast
  with JObj show ?thesis by (simp add: calls_below_def [abs_def])
next
  case (JArr xs)
  with assms have "snd p \<in> set xs"
    by (cases p) (auto simp: index_entries_def dest: set_zip_rightD)
  then have "calls_below (snd p) \<in> set (map calls_below xs)" by auto
  then have "calls_below (snd p) \<le> fold max (map calls_below xs) 0"
    using fold_max_ge by blast
  with JArr show ?thesis by (simp add: calls_below_def [abs_def])
next
  case (JStr s)
  with assms have "typeof (snd p) \<noteq> T_object"
    using string_entries [of p s] by auto
  then show ?thesis by (simp add: calls_below_def)
qed (insert assms, auto)

lemma walk_within:
  "\<forall>room. nesting messagesPart < room \<longrightarrow>
      validateMessagesSegment_within room messagesPart invalidKeyLabels parentPath
        = validateMessagesSegment messagesPart invalidKeyLabels parentPath"
  "\<forall>room. (\<forall>p\<in>set es. calls_below (snd p) \<le> room) \<longrightarrow>
      forEach_entry_within room es invalidKeyLabels parentPath
        = forEach_entry es invalidKeyLabels parentPath"
proof (induction messagesPart invalidKeyLabels parentPath and es invalidKeyLabels parentPath
       rule: validateMessagesSegment_forEach_entry.induct)
  case (1 messagesPart invalidKeyLabels parentPath)
  show ?case
  proof (intro allI impI)
    fix room
    assume deep: "nesting messagesPart < room"
    then obtain r where room: "room = Suc r" by (cases room) auto
    show "validateMessagesSegment_within room messagesPart invalidKeyLabels parentPath
            = validateMessagesSegment messagesPart invalidKeyLabels parentPath"
    proof (cases "object_entries messagesPart")
      case (Inl e)
      then show ?thesis
        by (simp add: room validateMessagesSegment.simps validateMessagesSegment_within.simps)
    next
      case (Inr entries)
      have "\<forall>p\<in>set entries. calls_below (snd p) \<le> r"
        using entries_calls_below [OF Inr] deep room by fastforce
      with "1.IH" [OF Inr]
      have "forEach_entry_within r entries invalidKeyLabels parentPath
              = forEach_entry entries invalidKeyLabels parentPath"
        by blast
      with Inr show ?thesis
        by (simp add: room validateMessagesSegment.simps validateMessagesSegment_within.simps)
    qed
  qed
next
  case (2 invalidKeyLabels parentPath)
  show ?case by simp
next
  case (3 key messageOrMessages rest invalidKeyLabels parentPath)
  show ?case
  proof (intro allI impI)
    fix room
    assume fits: "\<forall>p\<in>set ((key, messageOrMessages) # rest). calls_below (snd p) \<le> room"
    define pushed where "pushed = (if includes_dot key then invalidKeyLabels @ [keyLabel key parentPath]
                    else invalidKeyLabels)"
    show "forEach_entry_within room ((key, messageOrMessages) # rest) invalidKeyLabels parentPath
            = forEach_entry ((key, messageOrMessages) # rest) invalidKeyLabels parentPath"
    proof (cases "typeof messageOrMessages = T_object")
      case True
      with fits have "nesting messageOrMessages < room" by (simp add: calls_below_def)
      with "3.IH"(1) [OF pushed_def True]
      have sub: "validateMessagesSegment_within room messageOrMessages pushed
                   (Str (join_present ''.'' [parentPath, Str key]))
                 = validateMessagesSegment messageOrMessages pushed
                   (Str (join_present ''.'' [parentPath, Str key]))"
        by blast
      show ?thesis
      proof (cases "validateMessagesSegment messageOrMessages pushed
                      (Str (join_present ''.'' [parentPath, Str key]))")
        case (Inl e)
        with sub True show ?thesis by (simp add: pushed_def [symmetric] Let_def)
      next
        case (Inr walked)
        from "3.IH"(2) [OF pushed_def True Inr] fits
        have "forEach_entry_within room rest walked parentPath = forEach_entry rest walked parentPath"
          by simp
        with sub True Inr show ?thesis by (simp add: pushed_def [symmetric] Let_def)
      qed
    next
      case False
      from "3.IH"(3) [OF pushed_def False] fits
      have "forEach_entry_within room rest pushed parentPath = forEach_entry rest pushed parentPath"
        by simp
      with False show ?thesis by (simp add: pushed_def [symmetric] Let_def)
    qed
  qed
qed


text \<open>
  The walk throws exactly when a \<open>null\<close> is inside the value, and then a
  \<open>TypeError\<close>.
\<close>

lemma walk_null_free:
  "messagesPart \<noteq> JUndefined \<longrightarrow>
     (if null_free messagesPart
      then \<exists>ls. validateMessagesSegment messagesPart invalidKeyLabels parentPath = Inr ls
      else validateMessagesSegment messagesPart invalidKeyLabels parentPath = Inl TypeError)"
  "if \<forall>p\<in>set es. null_free (snd p)
   then \<exists>ls. forEach_entry es invalidKeyLabels parentPath = Inr ls
   else forEach_entry es invalidKeyLabels parentPath = Inl TypeError"
proof (induction messagesPart invalidKeyLabels parentPath and es invalidKeyLabels parentPath
       rule: validateMessagesSegment_forEach_entry.induct)
  case (1 messagesPart invalidKeyLabels parentPath)
  show ?case
  proof
    assume defined: "messagesPart \<noteq> JUndefined"
    show "if null_free messagesPart
      then \<exists>ls. validateMessagesSegment messagesPart invalidKeyLabels parentPath = Inr ls
      else validateMessagesSegment messagesPart invalidKeyLabels parentPath = Inl TypeError"
    proof (cases "object_entries messagesPart")
      case (Inl e)
      with defined have "messagesPart = JNull" by (cases messagesPart) auto
      then show ?thesis by (simp add: validateMessagesSegment.simps)
    next
      case (Inr entries)
      have "null_free messagesPart = (\<forall>p\<in>set entries. null_free (snd p))"
      proof (cases messagesPart)
        case (JObj kvs)
        with Inr show ?thesis using set_own_properties [of kvs] by auto
      next
        case (JArr xs)
        with Inr have "map snd entries = xs" by (auto simp: index_entries_snd)
        then have "set xs = snd ` set entries" by (metis set_map)
        with JArr show ?thesis by auto
      next
        case (JStr s)
        with Inr have "\<forall>p\<in>set entries. null_free (snd p)"
          using string_entries [of _ s] by fastforce
        with JStr show ?thesis by simp
      qed (insert Inr, auto)
      with "1.IH" [OF Inr] Inr show ?thesis by (simp add: validateMessagesSegment.simps)
    qed
  qed
next
  case (2 invalidKeyLabels parentPath)
  show ?case by simp
next
  case (3 key messageOrMessages rest invalidKeyLabels parentPath)
  define pushed where "pushed = (if includes_dot key then invalidKeyLabels @ [keyLabel key parentPath]
                    else invalidKeyLabels)"
  show ?case
  proof (cases "typeof messageOrMessages = T_object")
    case True
    then have defined: "messageOrMessages \<noteq> JUndefined" by auto
    show ?thesis
    proof (cases "validateMessagesSegment messageOrMessages pushed
                      (Str (join_present ''.'' [parentPath, Str key]))")
      case (Inl e)
      with "3.IH"(1) [OF pushed_def True] defined
      have "\<not> null_free messageOrMessages" and "e = TypeError" by (auto split: if_splits)
      with Inl True show ?thesis by (simp add: pushed_def [symmetric] Let_def)
    next
      case (Inr walked)
      with "3.IH"(1) [OF pushed_def True] defined
      have "null_free messageOrMessages" by (auto split: if_splits)
      with "3.IH"(2) [OF pushed_def True Inr] Inr True show ?thesis
        by (simp add: pushed_def [symmetric] Let_def)
    qed
  next
    case False
    then have "null_free messageOrMessages" by (cases messageOrMessages) auto
    with "3.IH"(3) [OF pushed_def False] False show ?thesis
      by (simp add: pushed_def [symmetric] Let_def)
  qed
qed

lemma validateMessages_null_free:
  assumes "null_free (messages p)"
  shows "\<exists>ls p'. validateMessages p = Inr (ls, p')"
proof (cases "truthy (messages p)")
  case True
  then have "messages p \<noteq> JUndefined" by auto
  with walk_null_free(1) [of "messages p" "[]" Undefined] assms
  obtain ls where "validateMessagesSegment (messages p) [] Undefined = Inr ls" by auto
  with True show ?thesis by (simp add: validateMessages_def)
next
  case False
  then show ?thesis by (simp add: validateMessages_def)
qed

lemma validateMessages_with_agrees:
  assumes "nesting (messages p) < room" and "\<forall>error. handler error = None"
  shows "validateMessages_with handler room p = validateMessages p"
proof -
  from assms(1) walk_within(1) [of "messages p" "[]" Undefined]
  have "validateMessagesSegment_within room (messages p) [] Undefined
          = validateMessagesSegment (messages p) [] Undefined"
    by blast
  with assms(2) show ?thesis
    by (simp add: validateMessages_with_def validateMessages_def split: sum.splits)
qed

text \<open>
  Whatever room the stack has, there is a messages dictionary nested too deep for it.
\<close>

lemma is_messages_chain: "is_messages (chain n)"
proof -
  have "is_message_value (chain n)" by (induction n) simp_all
  moreover have "typeof (chain n) = T_object" by (cases n) simp_all
  ultimately show ?thesis by (simp add: is_messages_def)
qed

lemma deep_chain_overflows:
  "validateMessagesSegment_within room (chain n) acc pp
     = (if n < room then Inr acc else Inl RangeError)"
proof (induction room arbitrary: n acc pp)
  case 0
  show ?case by (simp add: validateMessagesSegment_within.simps)
next
  case (Suc room)
  show ?case
  proof (cases n)
    case 0
    then show ?thesis by (simp add: own_properties_def validateMessagesSegment_within.simps)
  next
    case (Suc m)
    have "own_properties [(''k'', chain m)] = [(''k'', chain m)]"
      by (simp add: own_properties_def is_index_key_def array_index_k)
    moreover have "typeof (chain m) = T_object" by (cases m) simp_all
    ultimately show ?thesis using Suc Suc.IH [of m]
      by (simp add: includes_dot_def validateMessagesSegment_within.simps split: sum.splits)
  qed
qed

section \<open>The claims\<close>

text \<open>
  Claim C1. On every messages dictionary the walk returns, and what it returns are,
  counted with multiplicity, the labels of the keys whose name contains a dot, at any
  depth, and nothing for any other key. The label of a key is the key itself, followed
  by \<open>(at P)\<close> after a space exactly when \<open>P\<close>, the ancestor keys joined by dots, is
  a non-empty string. A top-level key has no ancestor and no suffix; a key whose only
  ancestor is the empty key has the empty string as \<open>P\<close>, which \<open>if (parentPath)\<close>
  takes as absent, and has no suffix either.
\<close>

theorem validator_labels:
  assumes "is_messages m"
  shows "\<exists>ls. validateMessagesSegment m [] Undefined = Inr ls
            \<and> mset ls = image_mset label_of (filter_mset offending (mset (key_occurrences [] m)))"
proof -
  have "mset (labels (visited_keys [] m))
          = image_mset label_of (filter_mset offending (mset (visited_keys [] m)))"
    by (simp add: labels_def)
  then show ?thesis using walk_root [OF assms] by (simp add: mset_visited_keys)
qed

theorem validator_labels_witness:
  "is_messages nested_example
   \<and> validateMessagesSegment nested_example [] Undefined = Inr [''a.b'', ''c.d (at group)'']
   \<and> image_mset label_of (filter_mset offending (mset (key_occurrences [] nested_example)))
       = {#''a.b'', ''c.d (at group)''#}"
proof -
  have m: "is_messages nested_example" by (rule is_messages_nested_example)
  from validator_labels [OF m] walk_nested_example show ?thesis using m by auto
qed

text \<open>
  With the suffix for every key that has an ancestor, the key \<open>a.b\<close> under the empty
  key would be labelled \<open>a.b (at )\<close>; the walk labels it \<open>a.b\<close>.
\<close>

theorem label_with_parent_counterexample:
  "is_messages empty_key_example
   \<and> validateMessagesSegment empty_key_example [] Undefined = Inr [''a.b'']
   \<and> map label_with_parent (filter offending (key_occurrences [] empty_key_example))
       = [''a.b (at )'']"
proof -
  have "map label_with_parent (filter offending (key_occurrences [] empty_key_example))
          = [''a.b (at )'']"
    by (simp add: empty_key_example_def offending_def includes_dot_def label_with_parent_def)
  with walk_empty_key_example is_messages_empty_key_example show ?thesis by simp
qed

text \<open>
  Claim C2. The pass returns normally, and what it finds goes to \<open>onError\<close> and
  nowhere else, for every value of \<open>messages\<close> under three conditions: no
  \<open>null\<close> is inside it, at any depth; its dictionaries and arrays are nested less
  deep than the stack has room for calls of \<open>validateMessagesSegment\<close>; and
  \<open>onError\<close> returns. Leaves may be strings, numbers, booleans or \<open>undefined\<close>,
  and arrays may occur. Under these conditions the pass on a bounded stack with the
  caller's callback is the pass \<open>validateMessages\<close>.
\<close>

theorem validation_completes:
  assumes "null_free (messages p)" and "nesting (messages p) < room"
    and "\<forall>error. handler error = None"
  shows "\<exists>ls p'. validateMessages_with handler room p = Inr (ls, p')
                 \<and> validateMessages p = Inr (ls, p')"
  using validateMessages_null_free [OF assms(1)] validateMessages_with_agrees [OF assms(2,3)]
  by simp

theorem validation_completes_witness:
  "null_free mixed_example \<and> nesting mixed_example < 5
   \<and> validateMessages_with (\<lambda>error. None) 5 \<lparr>messages = mixed_example, onError_calls = []\<rparr>
       = Inr ([''a.b (at list.1)''],
              \<lparr>messages = mixed_example,
               onError_calls = [invalid_key_error [''a.b (at list.1)'']]\<rparr>)"
proof -
  let ?p = "\<lparr>messages = mixed_example, onError_calls = []\<rparr>"
  have n: "null_free (messages ?p)" by (simp add: null_free_mixed_example)
  have d: "nesting (messages ?p) < 5" by (simp add: nesting_mixed_example)
  have h: "\<forall>error. (\<lambda>error. None :: exn option) error = None" by simp
  have v: "validateMessages ?p
             = Inr ([''a.b (at list.1)''],
                    \<lparr>messages = mixed_example,
                     onError_calls = [invalid_key_error [''a.b (at list.1)'']]\<rparr>)"
    by (simp add: validateMessages_def walk_mixed_example onError_def truthy_mixed_example)
  from validation_completes [OF n d h] v null_free_mixed_example nesting_mixed_example
  show ?thesis by auto
qed

text \<open>
  Each condition is needed. A \<open>null\<close> value makes \<open>Object.entries\<close> throw; an
  \<open>onError\<close> that throws ends the pass with what it throws; and on a stack with
  room for one call the nested dictionary of \<open>{"group": {"a.b": "x"}}\<close> is one call
  too many. The last two are on a messages dictionary in the strict sense.
\<close>

theorem validation_throws_counterexample:
  "validateMessages \<lparr>messages = null_example, onError_calls = []\<rparr> = Inl TypeError
   \<and> is_messages single_example
   \<and> validateMessages_with (\<lambda>error. Some CallbackError) (Suc (Suc 0))
         \<lparr>messages = single_example, onError_calls = []\<rparr> = Inl CallbackError
   \<and> validateMessages_with (\<lambda>error. None) (Suc 0)
         \<lparr>messages = single_example, onError_calls = []\<rparr> = Inl RangeError"
proof -
  have a: "validateMessages \<lparr>messages = null_example, onError_calls = []\<rparr> = Inl TypeError"
    by (simp add: validateMessages_def walk_null_example truthy_null_example truthy_single_example)
  have w: "validateMessagesSegment_within (Suc (Suc 0)) single_example [] Undefined
             = Inr [''a.b (at group)'']"
    by (simp add: single_example_def own_properties_def is_index_key_def includes_dot_def
          keyLabel_def join_present_def array_index_examples
          validateMessagesSegment_within.simps)
  have b: "validateMessages_with (\<lambda>error. Some CallbackError) (Suc (Suc 0))
         \<lparr>messages = single_example, onError_calls = []\<rparr> = Inl CallbackError"
    by (simp add: validateMessages_with_def w truthy_single_example)
  have r: "validateMessagesSegment_within (Suc 0) single_example [] Undefined = Inl RangeError"
    by (simp add: single_example_def own_properties_def is_index_key_def includes_dot_def
          keyLabel_def join_present_def array_index_examples
          validateMessagesSegment_within.simps)
  have c: "validateMessages_with (\<lambda>error. None) (Suc 0)
         \<lparr>messages = single_example, onError_calls = []\<rparr> = Inl RangeError"
    by (simp add: validateMessages_with_def r truthy_single_example)
  from a is_messages_single_example b c show ?thesis by simp
qed





text \<open>
  Claim C4. For every messages dictionary, \<open>onError\<close> is called once when the list
  of labels is not empty and not at all when it is empty. The error it is called with
  has the kind \<open>INVALID_KEY\<close>; its message ends with \<open>Invalid key:\<close> when there is
  exactly one label and with \<open>Invalid keys:\<close> when there are more, followed by the
  labels joined by a comma and a space.
\<close>

theorem onError_once:
  assumes "is_messages (messages p)"
  shows "\<exists>ls. validateMessagesSegment (messages p) [] Undefined = Inr ls
           \<and> validateMessages p =
               Inr (ls, p\<lparr>onError_calls := onError_calls p @
                     (if ls = [] then []
                      else [\<lparr>code = INVALID_KEY,
                             originalMessage = invalid_key_text
                               @ (if length ls = 1 then ''key'' else ''keys'')
                               @ '': '' @ join '', '' ls\<rparr>])\<rparr>)"
  by (simp add: validateMessages_dictionary [OF assms] walk_root [OF assms]
        onError_def invalid_key_error_def)

theorem onError_once_witness:
  "is_messages nested_example \<and> is_messages single_example \<and> is_messages clean_example
   \<and> validateMessages \<lparr>messages = nested_example, onError_calls = []\<rparr>
       = Inr ([''a.b'', ''c.d (at group)''],
              \<lparr>messages = nested_example,
               onError_calls = [\<lparr>code = INVALID_KEY,
                  originalMessage = invalid_key_text @ ''keys: a.b, c.d (at group)''\<rparr>]\<rparr>)
   \<and> validateMessages \<lparr>messages = single_example, onError_calls = []\<rparr>
       = Inr ([''a.b (at group)''],
              \<lparr>messages = single_example,
               onError_calls = [\<lparr>code = INVALID_KEY,
                  originalMessage = invalid_key_text @ ''key: a.b (at group)''\<rparr>]\<rparr>)
   \<and> validateMessages \<lparr>messages = clean_example, onError_calls = []\<rparr>
       = Inr ([], \<lparr>messages = clean_example, onError_calls = []\<rparr>)"
proof -
  have m1: "is_messages (messages \<lparr>messages = nested_example, onError_calls = []\<rparr>)"
    by (simp add: is_messages_nested_example)
  have m2: "is_messages (messages \<lparr>messages = single_example, onError_calls = []\<rparr>)"
    by (simp add: is_messages_single_example)
  have m3: "is_messages (messages \<lparr>messages = clean_example, onError_calls = []\<rparr>)"
    by (simp add: is_messages_clean_example)
  show ?thesis
    using onError_once [OF m1] onError_once [OF m2] onError_once [OF m3] m1 m2 m3
      walk_nested_example walk_single_example walk_clean_example
    by simp
qed

text \<open>
  Claim C5. When \<open>messages\<close> is absent (\<open>undefined\<close>) the pass returns at once:
  no label is collected and \<open>onError\<close> is not called.
\<close>

theorem absent_messages:
  "validateMessages \<lparr>messages = JUndefined, onError_calls = calls\<rparr>
     = Inr ([], \<lparr>messages = JUndefined, onError_calls = calls\<rparr>)"
  by (simp add: validateMessages_def)

text \<open>
  Claim C6. For every messages dictionary the labels come in the order in which the
  walk meets the keys: depth first, the label of a key before the labels from below it,
  and all of those before the labels of the later entries of its level. The entries of
  one level are met in the order of \<open>Object.entries\<close>: the keys that are array
  indices first, by ascending number, then the other keys in the order of their
  creation. In a dictionary without array-index keys that is the order of creation at
  every level.
\<close>

theorem labels_in_visiting_order:
  assumes "is_messages m"
  shows "validateMessagesSegment m [] Undefined
           = Inr (map label_of (filter offending (visited_keys [] m)))
         \<and> (no_index_keys m \<longrightarrow> visited_keys [] m = key_occurrences [] m)"
  using walk_root [OF assms] by (simp add: labels_def visited_keys_no_index)

theorem labels_in_visiting_order_witness:
  "is_messages nested_example \<and> no_index_keys nested_example
   \<and> validateMessagesSegment nested_example [] Undefined = Inr [''a.b'', ''c.d (at group)'']
   \<and> key_occurrences [] nested_example
       = [([], ''a.b''), ([], ''group''), ([''group''], ''c.d''), ([''group''], ''e'')]
   \<and> is_messages index_key_example
   \<and> validateMessagesSegment index_key_example [] Undefined = Inr [''c.d (at 1)'', ''a.b'']
   \<and> visited_keys [] index_key_example = [([], ''1''), ([''1''], ''c.d''), ([], ''a.b'')]"
proof -
  have m: "is_messages nested_example" by (rule is_messages_nested_example)
  have n: "no_index_keys nested_example"
    by (simp add: nested_example_def array_index_examples)
  have m': "is_messages index_key_example" by (rule is_messages_index_key_example)
  have k': "visited_keys [] index_key_example = [([], ''1''), ([''1''], ''c.d''), ([], ''a.b'')]"
    by (simp add: index_key_example_def own_properties_def is_index_key_def
          array_index_examples)
  have l': "map label_of (filter offending [([], ''1''), ([''1''], ''c.d''), ([], ''a.b'')])
            = [''c.d (at 1)'', ''a.b'']"
    by (simp add: offending_def includes_dot_def label_of_def)
  from labels_in_visiting_order [OF m] n
  have v: "visited_keys [] nested_example = key_occurrences [] nested_example" by blast
  from labels_in_visiting_order [OF m]
  have r: "validateMessagesSegment nested_example [] Undefined = Inr [''a.b'', ''c.d (at group)'']"
    by (simp only: v key_occurrences_nested_example labels_nested_example)
  from labels_in_visiting_order [OF m']
  have r': "validateMessagesSegment index_key_example [] Undefined = Inr [''c.d (at 1)'', ''a.b'']"
    by (simp only: k' l')
  from m n r key_occurrences_nested_example m' r' k' show ?thesis by blast
qed

text \<open>
  In the order of creation \<open>a.b\<close> comes before the key \<open>1\<close> and what is below it;
  the walk meets the array index \<open>1\<close> first.
\<close>

theorem insertion_order_counterexample:
  "is_messages index_key_example
   \<and> validateMessagesSegment index_key_example [] Undefined = Inr [''c.d (at 1)'', ''a.b'']
   \<and> map label_of (filter offending (key_occurrences [] index_key_example))
       = [''a.b'', ''c.d (at 1)'']"
proof -
  have "map label_of (filter offending (key_occurrences [] index_key_example))
          = [''a.b'', ''c.d (at 1)'']"
    by (simp add: index_key_example_def offending_def includes_dot_def label_of_def)
  with walk_index_key_example is_messages_index_key_example show ?thesis by simp
qed

text \<open>
  Claim C7. Running the pass a second time, on the provider as the first run left it,
  gives the same list of labels as the first run.
\<close>

theorem validation_repeatable:
  assumes "is_messages (messages p)"
  shows "\<exists>ls p' p''. validateMessages p = Inr (ls, p') \<and> validateMessages p' = Inr (ls, p'')"
proof -
  let ?ls = "labels (visited_keys [] (messages p))"
  obtain p' where first: "validateMessages p = Inr (?ls, p')" and same: "messages p' = messages p"
    by (simp add: validateMessages_dictionary [OF assms] onError_def)
  from assms same have "is_messages (messages p')" by simp
  from validateMessages_dictionary [OF this] same
  have "\<exists>p''. validateMessages p' = Inr (?ls, p'')" by simp
  with first show ?thesis by blast
qed

theorem validation_repeatable_witness:
  "is_messages (messages sample_provider)
   \<and> (\<exists>ls p' p''. validateMessages sample_provider = Inr (ls, p')
                   \<and> validateMessages p' = Inr (ls, p''))"
proof -
  have m: "is_messages (messages sample_provider)"
    by (simp add: sample_provider_def is_messages_nested_example)
  from validation_repeatable [OF m] m show ?thesis by simp
qed

text \<open>
  Claim C8. The pass leaves the dictionary as it was: \<open>messages\<close> after the pass is
  \<open>messages\<close> before it, so no key and no value at any depth has been added, removed
  or changed. (The pass writes to \<open>keyLabel\<close>, to its own array of labels and,
  through \<open>onError\<close>, to the record of reported errors only.)
\<close>

theorem messages_unchanged:
  assumes "is_messages (messages p)"
  shows "\<exists>ls p'. validateMessages p = Inr (ls, p') \<and> messages p' = messages p"
  by (simp add: validateMessages_dictionary [OF assms] onError_def)

theorem messages_unchanged_witness:
  "is_messages (messages sample_provider)
   \<and> (\<exists>ls p'. validateMessages sample_provider = Inr (ls, p')
               \<and> messages p' = messages sample_provider)"
proof -
  have m: "is_messages (messages sample_provider)"
    by (simp add: sample_provider_def is_messages_nested_example)
  from messages_unchanged [OF m] m show ?thesis by simp
qed

text \<open>
  Claim C9. Two messages dictionaries with the same keys at every level, which differ
  in the content of their leaf strings only, get the same list of labels; so a dot in
  a leaf string never adds a label.
\<close>

theorem leaf_contents_irrelevant:
  assumes "is_messages a" and "same_keys a b"
  shows "\<exists>ls. validateMessagesSegment a [] Undefined = Inr ls
            \<and> validateMessagesSegment b [] Undefined = Inr ls"
proof -
  from assms(2) have "is_message_value b" by (simp add: same_keys_message_value)
  moreover from assms have "typeof b = T_object"
    by (cases a; cases b) (simp_all add: is_messages_def)
  ultimately have "is_messages b" by (simp add: is_messages_def)
  from walk_root [OF assms(1)] walk_root [OF this] same_keys_visited [OF assms(2)]
  show ?thesis by simp
qed

theorem leaf_contents_irrelevant_witness:
  "is_messages nested_example \<and> same_keys nested_example other_leaves_example
   \<and> validateMessagesSegment nested_example [] Undefined = Inr [''a.b'', ''c.d (at group)'']
   \<and> validateMessagesSegment other_leaves_example [] Undefined
       = Inr [''a.b'', ''c.d (at group)'']"
proof -
  have m: "is_messages nested_example" by (rule is_messages_nested_example)
  have s: "same_keys nested_example other_leaves_example"
    by (simp add: nested_example_def other_leaves_example_def)
  from leaf_contents_irrelevant [OF m s] walk_nested_example m s show ?thesis by auto
qed

text \<open>
  Claim C10. The default message fallback returns the namespace, a dot and the key
  when a namespace is given, and the key alone, with no dot before it, when the
  namespace is \<open>undefined\<close> or \<open>null\<close>.
\<close>

theorem defaultGetMessageFallback_result:
  "defaultGetMessageFallback (Str ns) k = ns @ ''.'' @ k
   \<and> defaultGetMessageFallback Undefined k = k
   \<and> defaultGetMessageFallback Null k = k"
  by (simp add: defaultGetMessageFallback_def join_present_def)

end
